theory Spec2Isabelle
  imports Main "HOL-Library.Word"
begin

unbundle bit_operations_syntax

section \<open>Benchmark helpers and the p2p feed registry\<close>

type_synonym byte = "8 word"

text \<open>Run-time panics of Go that the modelled functions can raise.\<close>

datatype panic = SliceBoundsOutOfRange | AssignmentToNilMap

text \<open>A Go \<^verbatim>\<open>error\<close> value; the nil error is \<open>None\<close>.\<close>

datatype error = Error string

subsection \<open>MockValidatorRegistry.Limit\<close>

text \<open>
  \<^verbatim>\<open>type MockValidatorRegistry [][121]byte\<close>: a slice of 121-byte arrays. The method has a
  pointer receiver, which may be nil (\<open>None\<close>). The constant
  \<^verbatim>\<open>beacon.VALIDATOR_REGISTRY_LIMIT\<close> is declared in an imported package, so it is a
  parameter of the model.
\<close>

type_synonym MockValidatorRegistry = "byte list list"

definition Limit :: "64 word \<Rightarrow> MockValidatorRegistry option \<Rightarrow> 64 word" where
  "Limit VALIDATOR_REGISTRY_LIMIT receiver = VALIDATOR_REGISTRY_LIMIT"

subsection \<open>PreAllocatedWriter.Write\<close>

record PreAllocatedWriter =
  Out :: "byte list"
  N :: int

text \<open>
  Go's builtin \<^verbatim>\<open>copy(dst, src)\<close>: copies \<open>min (len dst) (len src)\<close> elements to the front
  of \<open>dst\<close> and returns that number.
\<close>

definition go_copy :: "byte list \<Rightarrow> byte list \<Rightarrow> byte list \<times> int" where
  "go_copy dst src =
     (let k = min (length dst) (length src) in (take k src @ drop k dst, int k))"

text \<open>
  \<^verbatim>\<open>return copy(p.Out[p.N:], data), nil\<close>. The slice expression \<^verbatim>\<open>p.Out[p.N:]\<close> panics unless
  \<open>0 \<le> N \<le> len(Out)\<close>; otherwise it aliases the tail of \<open>Out\<close>, so the copy
  lands in \<open>Out\<close> from index \<open>N\<close> on. The result is the updated writer, the count and
  the error.
\<close>

definition Write ::
  "PreAllocatedWriter \<Rightarrow> byte list \<Rightarrow> panic + (PreAllocatedWriter \<times> int \<times> error option)" where
  "Write p data =
     (if N p < 0 \<or> int (length (Out p)) < N p then Inl SliceBoundsOutOfRange
      else
        (let lo = nat (N p);
             (tail, n) = go_copy (drop lo (Out p)) data
         in Inr (p\<lparr>Out := take lo (Out p) @ tail\<rparr>, n, None)))"

subsection \<open>Server.Feed\<close>

text \<open>
  A pointer to an \<^verbatim>\<open>event.Feed\<close>: nil or an address. \<^verbatim>\<open>new(event.Feed)\<close> takes the next
  free address of the heap, which is represented by the number of cells allocated so far.
\<close>

datatype ptr = Nil | Addr nat

text \<open>
  An \<^verbatim>\<open>interface{}\<close> value is nil or a pair of a dynamic type and a value;
  \<^verbatim>\<open>reflect.TypeOf\<close> gives the dynamic type, and the nil type for the nil interface.
\<close>

type_synonym ('t, 'v) iface = "('t \<times> 'v) option"

definition TypeOf :: "('t, 'v) iface \<Rightarrow> 't option" where
  "TypeOf msg = map_option fst msg"

text \<open>
  The declaration of \<^verbatim>\<open>Server\<close> is in another file of the package; \<^verbatim>\<open>Feed\<close> reads only
  the field \<^verbatim>\<open>feeds\<close>, a map from \<^verbatim>\<open>reflect.Type\<close> to \<^verbatim>\<open>*event.Feed\<close>. A Go map may
  be nil (\<open>None\<close>): reading it gives the zero value, assigning to it panics.
\<close>

record 't Server =
  feeds :: "('t option \<rightharpoonup> ptr) option"

definition map_index :: "('k \<rightharpoonup> ptr) option \<Rightarrow> 'k \<Rightarrow> ptr" where
  "map_index m k = (case m of None \<Rightarrow> Nil | Some f \<Rightarrow> (case f k of None \<Rightarrow> Nil | Some p \<Rightarrow> p))"

definition map_assign :: "('k \<rightharpoonup> ptr) option \<Rightarrow> 'k \<Rightarrow> ptr \<Rightarrow> panic + ('k \<rightharpoonup> ptr) option" where
  "map_assign m k p = (case m of None \<Rightarrow> Inl AssignmentToNilMap | Some f \<Rightarrow> Inr (Some (f(k \<mapsto> p))))"

text \<open>
  \<^verbatim>\<open>t := reflect.TypeOf(msg); if s.feeds[t] == nil { s.feeds[t] = new(event.Feed) };
  return s.feeds[t], nil\<close>. The state is the server and the heap.
\<close>

definition Feed ::
  "'t Server \<times> nat \<Rightarrow> ('t, 'v) iface \<Rightarrow> panic + ((ptr \<times> error option) \<times> 't Server \<times> nat)" where
  "Feed st msg =
     (let s = fst st; heap = snd st; t = TypeOf msg in
      if map_index (feeds s) t = Nil then
        (case map_assign (feeds s) t (Addr heap) of
           Inl e \<Rightarrow> Inl e
         | Inr m' \<Rightarrow> Inr ((map_index m' t, None), s\<lparr>feeds := m'\<rparr>, Suc heap))
      else Inr ((map_index (feeds s) t, None), s, heap))"

section \<open>The serialization engine\<close>

text \<open>
  The benchmarks call \<^verbatim>\<open>zssz.Encode\<close>, \<^verbatim>\<open>zssz.Decode\<close> and \<^verbatim>\<open>zssz.HashTreeRoot\<close>. These
  functions belong to imported packages; the repository holds only their callers. The
  definitions of this section follow the specification's description of the engine
  (sections 3, 4.1 to 4.3 and 6), each marked as such.
\<close>

text \<open>
  Modelled from the spec: the type descriptor, missing from the sources (section 3). A tagged
  tree: basic scalar (unsigned integer of a byte width, or boolean), fixed vector, bounded
  list, bitvector, bitlist, or container of fields in order. Field names play no part in any
  algorithm and are left out.
\<close>

datatype descr =
    TUint nat
  | TBool
  | TVector descr nat
  | TList descr nat
  | TBitvector nat
  | TBitlist nat
  | TContainer "descr list"

text \<open>
  Modelled from the spec: the values the engine handles, missing from the sources (section 3).
  Vectors and lists carry their elements, bitvectors and bitlists their bits, containers their
  field values in field order.
\<close>

datatype val =
    VUint nat
  | VBool bool
  | VSeq "val list"
  | VBits "bool list"
  | VContainer "val list"

text \<open>
  Modelled from the spec: the error taxonomy of sections 4.3 and 7, missing from the sources.
  Two errors are not in the taxonomy. \<open>ShapeMismatch\<close> is what the model returns for a value
  that does not have the shape of its descriptor, which the program's static types exclude.
  \<open>OffsetOverflow\<close> is what the encoder returns when a variable-size field starts at a
  position that no 4-byte offset equals; the spec requires the offset to equal the position
  and names no error for the case.
\<close>

datatype ssz_error =
    CapacityExceeded
  | TruncatedInput
  | MalformedOffsetTable
  | InvalidBitlistSentinel
  | LengthMismatch
  | ShapeMismatch
  | OffsetOverflow

text \<open>
  Modelled from the spec: when a value conforms to a descriptor (section 3), missing from the
  sources. Integers have 1, 2, 4 or 8 bytes and fit their width; a vector has exactly \<open>N\<close>
  elements, a list or bitlist at most \<open>L\<close>; a container has one value per field.
\<close>

fun conforms :: "descr \<Rightarrow> val \<Rightarrow> bool" where
  "conforms (TUint w) (VUint n) = (w \<in> {1, 2, 4, 8} \<and> n < 2 ^ (8 * w))"
| "conforms TBool (VBool b) = True"
| "conforms (TVector t n) (VSeq vs) = (length vs = n \<and> (\<forall>v \<in> set vs. conforms t v))"
| "conforms (TList t l) (VSeq vs) = (length vs \<le> l \<and> (\<forall>v \<in> set vs. conforms t v))"
| "conforms (TBitvector n) (VBits bs) = (length bs = n)"
| "conforms (TBitlist l) (VBits bs) = (length bs \<le> l)"
| "conforms (TContainer ts) (VContainer vs) = list_all2 conforms ts vs"
| "conforms _ _ = False"

text \<open>
  Modelled from the spec: the query \<^verbatim>\<open>isFixedSize\<close> of section 4.1, missing from the sources.
  Lists and bitlists are never fixed-size; a vector is iff its element type is; a container
  iff all its fields are.
\<close>

fun isFixedSize :: "descr \<Rightarrow> bool" where
  "isFixedSize (TUint w) = True"
| "isFixedSize TBool = True"
| "isFixedSize (TVector t n) = isFixedSize t"
| "isFixedSize (TList t l) = False"
| "isFixedSize (TBitvector n) = True"
| "isFixedSize (TBitlist l) = False"
| "isFixedSize (TContainer ts) = list_all isFixedSize ts"

text \<open>
  Modelled from the spec: the query \<^verbatim>\<open>fixedByteLength\<close> of section 4.1, missing from the
  sources. It is read only for fixed-size descriptors; for the others it is 0 here.
\<close>

fun fixedByteLength :: "descr \<Rightarrow> nat" where
  "fixedByteLength (TUint w) = w"
| "fixedByteLength TBool = 1"
| "fixedByteLength (TVector t n) = n * fixedByteLength t"
| "fixedByteLength (TList t l) = 0"
| "fixedByteLength (TBitvector n) = (n + 7) div 8"
| "fixedByteLength (TBitlist l) = 0"
| "fixedByteLength (TContainer ts) = sum_list (map fixedByteLength ts)"

text \<open>
  Modelled from the spec: the little-endian fixed-width representation of section 4.2 step 1,
  missing from the sources. \<open>le_bytes k n\<close> are the \<open>k\<close> low bytes of \<open>n\<close>, lowest first;
  \<open>le_nat\<close> reads them back.
\<close>

fun le_bytes :: "nat \<Rightarrow> nat \<Rightarrow> byte list" where
  "le_bytes 0 n = []"
| "le_bytes (Suc k) n = word_of_nat (n mod 256) # le_bytes k (n div 256)"

text \<open>Modelled from the spec: reading a little-endian integer (section 4.3 step 1).\<close>

fun le_nat :: "byte list \<Rightarrow> nat" where
  "le_nat [] = 0"
| "le_nat (b # bs) = unat b + 256 * le_nat bs"

text \<open>
  Modelled from the spec: bit packing (section 4.2 step 4), missing from the sources. Bit \<open>i\<close>
  goes to bit \<open>i mod 8\<close> of byte \<open>i div 8\<close>, low bit first; the unused high bits of the last
  byte are zero.
\<close>

definition byte_of_bits :: "bool list \<Rightarrow> byte" where
  "byte_of_bits bs = horner_sum of_bool 2 (take 8 bs)"

text \<open>Modelled from the spec: packing a bit sequence into \<open>ceil(n/8)\<close> bytes (section 4.2 step 4).\<close>

fun pack_bits :: "bool list \<Rightarrow> byte list" where
  "pack_bits [] = []"
| "pack_bits (b # bs) = byte_of_bits (b # bs) # pack_bits (drop 7 bs)"

text \<open>Modelled from the spec: the eight bits of a byte, low bit first (section 4.3 step 4).\<close>

definition bits_of_byte :: "byte \<Rightarrow> bool list" where
  "bits_of_byte w = map (bit w) [0..<8]"

text \<open>Modelled from the spec: all bits of a byte sequence, in order (section 4.3 steps 4 and 5).\<close>

definition unpack_bits :: "byte list \<Rightarrow> bool list" where
  "unpack_bits bs = concat (map bits_of_byte bs)"

text \<open>
  Modelled from the spec: finding the sentinel of a bitlist (section 4.3 step 5), missing from
  the sources. Scanning from the highest bit downward, the first set bit is the sentinel; the
  bits below it are the data. \<open>None\<close> when no bit is set.
\<close>

definition strip_sentinel :: "bool list \<Rightarrow> bool list option" where
  "strip_sentinel bits =
     (case dropWhile Not (rev bits) of [] \<Rightarrow> None | s # data \<Rightarrow> Some (rev data))"

text \<open>
  Modelled from the spec: error propagation (section 7), missing from the sources. The results
  of the sub-operations in order, or the first error among them.
\<close>

fun collect :: "('e + 'a) list \<Rightarrow> 'e + 'a list" where
  "collect [] = Inr []"
| "collect (x # xs) =
     (case x of
        Inl e \<Rightarrow> Inl e
      | Inr a \<Rightarrow> (case collect xs of Inl e \<Rightarrow> Inl e | Inr as \<Rightarrow> Inr (a # as)))"

text \<open>
  Modelled from the spec: the fixed part of a container's encoding (section 4.2 step 3),
  missing from the sources. Each field comes with the flag "fixed-size" and its encoding. A
  fixed-size field contributes its encoding, a variable-size field the 4-byte little-endian
  offset at which its encoding starts. \<open>off\<close> is the offset of the next variable-size field:
  the length of the whole fixed part plus the variable bytes emitted so far, as sections 4.3
  and 6 require ("first offset == fixed-part length").
\<close>

fun fixed_part :: "nat \<Rightarrow> (bool \<times> byte list) list \<Rightarrow> byte list" where
  "fixed_part off [] = []"
| "fixed_part off ((fixed, b) # ps) =
     (if fixed then b @ fixed_part off ps
      else le_bytes 4 off @ fixed_part (off + length b) ps)"

text \<open>
  Modelled from the spec: the byte length of the fixed part, every offset counting 4 bytes
  (section 4.2 step 3).
\<close>

definition fixed_part_length :: "(bool \<times> byte list) list \<Rightarrow> nat" where
  "fixed_part_length ps = sum_list (map (\<lambda>(fixed, b). if fixed then length b else 4) ps)"

text \<open>
  Modelled from the spec: the variable part, the encodings of the variable-size fields in field
  order, back to back (section 4.2 step 3).
\<close>

definition variable_part :: "(bool \<times> byte list) list \<Rightarrow> byte list" where
  "variable_part ps = concat (map snd (filter (\<lambda>p. \<not> fst p) ps))"

text \<open>
  Modelled from the spec: whether every offset of a fixed part can be written (section 4.2
  step 3): each is an unsigned 4-byte integer, so it must be below \<open>2^32\<close>. \<open>off\<close> is the
  offset of the next variable-size field, as in \<open>fixed_part\<close>.
\<close>

fun offsets_fit :: "nat \<Rightarrow> (bool \<times> byte list) list \<Rightarrow> bool" where
  "offsets_fit off [] = True"
| "offsets_fit off ((fixed, b) # ps) =
     (if fixed then offsets_fit off ps
      else off < 2 ^ 32 \<and> offsets_fit (off + length b) ps)"

text \<open>Modelled from the spec: the bytes \<^verbatim>\<open>[fixed-part][variable-part]\<close> of section 6.\<close>

definition layout_bytes :: "(bool \<times> byte list) list \<Rightarrow> byte list" where
  "layout_bytes ps = fixed_part (fixed_part_length ps) ps @ variable_part ps"

text \<open>
  Modelled from the spec: the layout of a container or of a collection of variable-size
  elements (section 4.2 step 3 and section 6): the bytes above, or \<open>OffsetOverflow\<close> when
  an offset cannot be written.
\<close>

definition layout :: "(bool \<times> byte list) list \<Rightarrow> ssz_error + byte list" where
  "layout ps =
     (if offsets_fit (fixed_part_length ps) ps then Inr (layout_bytes ps)
      else Inl OffsetOverflow)"

text \<open>
  Modelled from the spec: \<^verbatim>\<open>encode(value, descriptor) -> bytes | Error\<close> (section 4.2),
  missing from the sources. Elements of a fixed-size type are concatenated; elements of a
  variable-size type are laid out like the fields of a container. A bitlist is packed with the
  sentinel as the bit after its last data bit, which takes one more byte exactly when the data
  bits fill their bytes. A list or bitlist longer than its capacity is an error, and so is an
  offset that does not fit its 4 bytes.
\<close>

function (sequential) encode :: "descr \<Rightarrow> val \<Rightarrow> ssz_error + byte list" where
  "encode (TUint w) (VUint n) =
     (if n < 2 ^ (8 * w) then Inr (le_bytes w n) else Inl ShapeMismatch)"
| "encode TBool (VBool b) = Inr [if b then 1 else 0]"
| "encode (TVector t n) (VSeq vs) =
     (if length vs \<noteq> n then Inl ShapeMismatch
      else case collect (map (encode t) vs) of
        Inl e \<Rightarrow> Inl e
      | Inr parts \<Rightarrow>
          if isFixedSize t then Inr (concat parts) else layout (map (Pair False) parts))"
| "encode (TList t l) (VSeq vs) =
     (if l < length vs then Inl CapacityExceeded
      else case collect (map (encode t) vs) of
        Inl e \<Rightarrow> Inl e
      | Inr parts \<Rightarrow>
          if isFixedSize t then Inr (concat parts) else layout (map (Pair False) parts))"
| "encode (TBitvector n) (VBits bs) =
     (if length bs \<noteq> n then Inl ShapeMismatch else Inr (pack_bits bs))"
| "encode (TBitlist l) (VBits bs) =
     (if l < length bs then Inl CapacityExceeded else Inr (pack_bits (bs @ [True])))"
| "encode (TContainer ts) (VContainer vs) =
     (if length vs \<noteq> length ts then Inl ShapeMismatch
      else case collect (map (\<lambda>(t, v). encode t v) (zip ts vs)) of
        Inl e \<Rightarrow> Inl e
      | Inr parts \<Rightarrow> layout (zip (map isFixedSize ts) parts))"
| "encode _ _ = Inl ShapeMismatch"
  by pat_completeness auto
termination
proof (relation "measure (\<lambda>(t, v). size t)")
  fix ts :: "descr list" and vs :: "val list" and x :: "descr \<times> val" and t v
  assume "x \<in> set (zip ts vs)" "(t, v) = x"
  then have "t \<in> set ts" by (auto dest: set_zip_leftD)
  then have "size t < Suc (size_list size ts)"
    by (simp add: less_Suc_eq_le size_list_estimation')
  then show "((t, v), TContainer ts, VContainer vs) \<in> measure (\<lambda>(t, v). size t)"
    by simp
qed auto

text \<open>
  Modelled from the spec: cutting the input of a collection of fixed-size elements into \<open>n\<close>
  pieces of \<open>k\<close> bytes (section 4.3 step 2).
\<close>

fun chunks :: "nat \<Rightarrow> nat \<Rightarrow> byte list \<Rightarrow> byte list list" where
  "chunks 0 k bs = []"
| "chunks (Suc n) k bs = take k bs # chunks n k (drop k bs)"

text \<open>
  Modelled from the spec: what the decoder reads in the fixed part (section 4.3 step 3): the
  bytes of a fixed-size field, or the offset of a variable-size one.
\<close>

datatype slot = FixedBytes "byte list" | Offset nat

text \<open>Modelled from the spec: reading the fixed part, field by field (section 4.3 step 3).\<close>

fun read_slots :: "descr list \<Rightarrow> byte list \<Rightarrow> slot list" where
  "read_slots [] bs = []"
| "read_slots (t # ts) bs =
     (if isFixedSize t
      then FixedBytes (take (fixedByteLength t) bs) # read_slots ts (drop (fixedByteLength t) bs)
      else Offset (le_nat (take 4 bs)) # read_slots ts (drop 4 bs))"

text \<open>Modelled from the spec: the offset table, the offsets read in field order (glossary).\<close>

fun offsets :: "slot list \<Rightarrow> nat list" where
  "offsets [] = []"
| "offsets (FixedBytes b # ss) = offsets ss"
| "offsets (Offset off # ss) = off # offsets ss"

text \<open>
  Modelled from the spec: the fixed-part total length a descriptor list implies, every
  variable-size field counting 4 bytes (section 4.3 step 3).
\<close>

definition fixed_length_of :: "descr list \<Rightarrow> nat" where
  "fixed_length_of ts = sum_list (map (\<lambda>t. if isFixedSize t then fixedByteLength t else 4) ts)"

text \<open>Modelled from the spec: the byte range \<open>[lo, hi)\<close> of the input (section 4.3 step 3).\<close>

definition slice :: "nat \<Rightarrow> nat \<Rightarrow> byte list \<Rightarrow> byte list" where
  "slice lo hi bs = take (hi - lo) (drop lo bs)"

text \<open>
  Modelled from the spec: each field's byte range (section 4.3 step 3). A variable-size field
  ranges from its offset to the next offset, the last one to the end of the input.
\<close>

fun ranges :: "byte list \<Rightarrow> slot list \<Rightarrow> byte list list" where
  "ranges bs [] = []"
| "ranges bs (FixedBytes b # ss) = b # ranges bs ss"
| "ranges bs (Offset off # ss) =
     slice off (case offsets ss of [] \<Rightarrow> length bs | next # _ \<Rightarrow> next) bs # ranges bs ss"

text \<open>
  Modelled from the spec: reading and validating the fixed part of a container or of a
  collection of variable-size elements (section 4.3 step 3), missing from the sources. The
  input must hold the whole fixed part; without variable-size fields it must be exactly that
  long; otherwise the first offset must equal the fixed-part length and the offsets, followed
  by the input length, must be non-decreasing.
\<close>

definition split_series :: "descr list \<Rightarrow> byte list \<Rightarrow> ssz_error + byte list list" where
  "split_series ts bs =
     (if length bs < fixed_length_of ts then Inl TruncatedInput
      else
        (let slots = read_slots ts bs; offs = offsets slots in
         case offs of
           [] \<Rightarrow> if length bs \<noteq> fixed_length_of ts then Inl LengthMismatch
                 else Inr (ranges bs slots)
         | first # _ \<Rightarrow>
             if first \<noteq> fixed_length_of ts \<or> \<not> sorted (offs @ [length bs])
             then Inl MalformedOffsetTable
             else Inr (ranges bs slots)))"

text \<open>
  Modelled from the spec: \<^verbatim>\<open>decode(bytes, descriptor) -> value | Error\<close> (section 4.3),
  missing from the sources. A list of fixed-size elements has as many elements as its input
  holds element lengths (if that length is zero the input must be empty and is read as the
  empty list); a list of variable-size elements has as many as its first offset holds 4-byte
  offsets, none if the input is empty, and a first offset that is no multiple of 4 is a
  malformed offset table. The spec names no failure for a boolean byte other than 0 and 1;
  any non-zero byte reads as true.
\<close>

function (sequential) decode :: "descr \<Rightarrow> byte list \<Rightarrow> ssz_error + val" where
  "decode (TUint w) bs =
     (if length bs < w then Inl TruncatedInput
      else if w < length bs then Inl LengthMismatch
      else Inr (VUint (le_nat bs)))"
| "decode TBool bs =
     (if length bs < 1 then Inl TruncatedInput
      else if 1 < length bs then Inl LengthMismatch
      else Inr (VBool (hd bs \<noteq> 0)))"
| "decode (TVector t n) bs =
     (if isFixedSize t then
        (if length bs \<noteq> n * fixedByteLength t then Inl LengthMismatch
         else case collect (map (decode t) (chunks n (fixedByteLength t) bs)) of
           Inl e \<Rightarrow> Inl e
         | Inr vs \<Rightarrow> Inr (VSeq vs))
      else
        (case split_series (replicate n t) bs of
           Inl e \<Rightarrow> Inl e
         | Inr rs \<Rightarrow>
             (case collect (map (decode t) rs) of
                Inl e \<Rightarrow> Inl e
              | Inr vs \<Rightarrow> Inr (VSeq vs))))"
| "decode (TList t l) bs =
     (if isFixedSize t then
        (if fixedByteLength t = 0 then (if bs = [] then Inr (VSeq []) else Inl LengthMismatch)
         else if length bs mod fixedByteLength t \<noteq> 0 then Inl LengthMismatch
         else if l < length bs div fixedByteLength t then Inl CapacityExceeded
         else case collect (map (decode t)
                     (chunks (length bs div fixedByteLength t) (fixedByteLength t) bs)) of
           Inl e \<Rightarrow> Inl e
         | Inr vs \<Rightarrow> Inr (VSeq vs))
      else
        (if bs = [] then Inr (VSeq [])
         else if length bs < 4 then Inl TruncatedInput
         else if le_nat (take 4 bs) mod 4 \<noteq> 0 then Inl MalformedOffsetTable
         else if l < le_nat (take 4 bs) div 4 then Inl CapacityExceeded
         else case split_series (replicate (le_nat (take 4 bs) div 4) t) bs of
           Inl e \<Rightarrow> Inl e
         | Inr rs \<Rightarrow>
             (case collect (map (decode t) rs) of
                Inl e \<Rightarrow> Inl e
              | Inr vs \<Rightarrow> Inr (VSeq vs))))"
| "decode (TBitvector n) bs =
     (if length bs \<noteq> (n + 7) div 8 then Inl LengthMismatch
      else Inr (VBits (take n (unpack_bits bs))))"
| "decode (TBitlist l) bs =
     (case strip_sentinel (unpack_bits bs) of
        None \<Rightarrow> Inl InvalidBitlistSentinel
      | Some bits \<Rightarrow> if l < length bits then Inl CapacityExceeded else Inr (VBits bits))"
| "decode (TContainer ts) bs =
     (case split_series ts bs of
        Inl e \<Rightarrow> Inl e
      | Inr rs \<Rightarrow>
          (case collect (map (\<lambda>(t, r). decode t r) (zip ts rs)) of
             Inl e \<Rightarrow> Inl e
           | Inr vs \<Rightarrow> Inr (VContainer vs)))"
  by pat_completeness auto
termination
proof (relation "measure (\<lambda>(t, bs). size t)")
  fix ts :: "descr list" and rs :: "byte list list" and x :: "descr \<times> byte list" and t r b
  assume "x \<in> set (zip ts rs)" "(t, r) = x"
  then have "t \<in> set ts" by (auto dest: set_zip_leftD)
  then have "size t < Suc (size_list size ts)"
    by (simp add: less_Suc_eq_le size_list_estimation')
  then show "((t, r), TContainer ts, b) \<in> measure (\<lambda>(t, bs). size t)"
    by simp
qed auto

text \<open>
  A value has its zero-byte lists empty when every list in it whose element type is fixed-size
  of byte length zero (such as a vector of length 0 or a container without fields) is empty.
  The encoding of a list of such elements is empty whatever its length.
\<close>

fun zero_byte_lists_empty :: "descr \<Rightarrow> val \<Rightarrow> bool" where
  "zero_byte_lists_empty (TVector t n) (VSeq vs) = (\<forall>v \<in> set vs. zero_byte_lists_empty t v)"
| "zero_byte_lists_empty (TList t l) (VSeq vs) =
     ((isFixedSize t \<and> fixedByteLength t = 0 \<longrightarrow> vs = [])
      \<and> (\<forall>v \<in> set vs. zero_byte_lists_empty t v))"
| "zero_byte_lists_empty (TContainer ts) (VContainer vs) = list_all2 zero_byte_lists_empty ts vs"
| "zero_byte_lists_empty _ _ = True"


text \<open>
  The slots a decoder should read from the fixed part that \<open>fixed_part off\<close> writes: used to
  relate \<open>read_slots\<close> to \<open>fixed_part\<close>.
\<close>

fun expected_slots :: "nat \<Rightarrow> (bool \<times> byte list) list \<Rightarrow> slot list" where
  "expected_slots off [] = []"
| "expected_slots off ((fixed, b) # ps) =
     (if fixed then FixedBytes b # expected_slots off ps
      else Offset off # expected_slots (off + length b) ps)"

text \<open>
  A field's flag and encoding fit its descriptor: the flag is the descriptor's
  \<open>isFixedSize\<close>, and a fixed-size field's encoding has the descriptor's byte length.
\<close>

definition fits :: "descr \<Rightarrow> bool \<times> byte list \<Rightarrow> bool" where
  "fits t p \<longleftrightarrow> fst p = isFixedSize t \<and> (fst p \<longrightarrow> length (snd p) = fixedByteLength t)"

section \<open>Properties of the benchmark helpers and the feed registry\<close>

text \<open>
  C10. \<^verbatim>\<open>MockValidatorRegistry.Limit\<close> is a constant function: for every receiver, the nil
  pointer included, it returns \<^verbatim>\<open>beacon.VALIDATOR_REGISTRY_LIMIT\<close>, so the answer does not
  depend on the registry's contents.
\<close>

theorem Limit_constant:
  "Limit c r = c \<and> Limit c None = c \<and> Limit c r = Limit c r'"
  by (simp add: Limit_def)

text \<open>
  A write within bounds: the copy lands at index \<open>N\<close>, and neither \<open>N\<close> nor the length of
  \<open>Out\<close> changes, so the next write meets the same bounds and the same offset.
\<close>

lemma Write_in_range:
  assumes "0 \<le> N p" and "N p \<le> int (length (Out p))"
  shows "\<exists>p'. Write p data = Inr (p', int (min (length data) (length (Out p) - nat (N p))), None)
           \<and> N p' = N p
           \<and> length (Out p') = length (Out p)
           \<and> Out p' = take (nat (N p)) (Out p)
                       @ take (length (Out p) - nat (N p)) data
                       @ drop (nat (N p) + length data) (Out p)
           \<and> (\<forall>data2. \<exists>p''. Write p' data2
                   = Inr (p'', int (min (length data2) (length (Out p) - nat (N p))), None)
                 \<and> N p'' = N p
                 \<and> Out p'' = take (nat (N p)) (Out p)
                       @ take (length (Out p) - nat (N p)) data2
                       @ drop (nat (N p) + length data2) (Out p'))"
proof -
  define lo where "lo = nat (N p)"
  define k where "k = min (length (Out p) - lo) (length data)"
  define p' where "p' = p\<lparr>Out := take lo (Out p) @ take k data @ drop k (drop lo (Out p))\<rparr>"
  have lo: "lo \<le> length (Out p)" "\<not> N p < 0" "\<not> int (length (Out p)) < N p"
    using assms by (simp_all add: lo_def)
  have w: "Write p data = Inr (p', int k, None)"
    using lo(2,3) by (simp add: Write_def go_copy_def Let_def lo_def k_def p'_def)
  have len: "length (Out p') = length (Out p)"
    using lo(1) by (simp add: p'_def k_def)
  have out: "Out p' = take lo (Out p) @ take (length (Out p) - lo) data @ drop (lo + length data) (Out p)"
  proof (cases "length data \<le> length (Out p) - lo")
    case True
    then show ?thesis by (simp add: p'_def k_def min_def add.commute)
  next
    case False
    then show ?thesis using lo(1) by (simp add: p'_def k_def min_def)
  qed
  have n: "N p' = N p" by (simp add: p'_def)
  have again: "\<exists>p''. Write p' data2
        = Inr (p'', int (min (length data2) (length (Out p) - lo)), None)
      \<and> N p'' = N p
      \<and> Out p'' = take lo (Out p) @ take (length (Out p) - lo) data2
                    @ drop (lo + length data2) (Out p')" for data2
  proof -
    define k2 where "k2 = min (length (Out p) - lo) (length data2)"
    have tk: "take lo (Out p') = take lo (Out p)"
      using lo(1) by (simp add: p'_def)
    have w2: "Write p' data2
        = Inr (p'\<lparr>Out := take lo (Out p') @ take k2 data2 @ drop k2 (drop lo (Out p'))\<rparr>, int k2, None)"
      using lo(2,3) n len by (simp add: Write_def go_copy_def Let_def lo_def k2_def)
    have out2: "take lo (Out p') @ take k2 data2 @ drop k2 (drop lo (Out p'))
        = take lo (Out p) @ take (length (Out p) - lo) data2 @ drop (lo + length data2) (Out p')"
    proof (cases "length data2 \<le> length (Out p) - lo")
      case True
      then show ?thesis by (simp add: tk k2_def min_def add.commute)
    next
      case False
      then show ?thesis using lo(1) len by (simp add: tk k2_def min_def)
    qed
    show ?thesis
      using w2 out2 n by (simp add: k2_def min.commute)
  qed
  show ?thesis
    using w len out n again unfolding lo_def [symmetric]
    by (intro exI [of _ p']) (simp add: k_def min.commute)
qed

text \<open>
  C8 (as amended). When \<open>0 \<le> N \<le> len(Out)\<close>, \<^verbatim>\<open>Write\<close> copies the input into \<open>Out\<close> from
  the fixed offset \<open>N\<close>, returns the number of bytes copied, \<open>min (len data) (len Out - N)\<close>
  (zero when \<open>len Out = N\<close>), and the nil error; it changes neither \<open>N\<close> nor the length
  of \<open>Out\<close>, so a second \<^verbatim>\<open>Write\<close> on the same writer starts at the same offset and
  overwrites the same region instead of appending. When \<open>N\<close> is negative or greater than
  \<open>len(Out)\<close>, the slice expression panics and nothing is returned.
\<close>

theorem Write_at_fixed_offset:
  "(0 \<le> N p \<and> N p \<le> int (length (Out p)) \<longrightarrow>
      (\<exists>p'. Write p data = Inr (p', int (min (length data) (length (Out p) - nat (N p))), None)
           \<and> N p' = N p
           \<and> length (Out p') = length (Out p)
           \<and> Out p' = take (nat (N p)) (Out p)
                       @ take (length (Out p) - nat (N p)) data
                       @ drop (nat (N p) + length data) (Out p)
           \<and> (\<forall>data2. \<exists>p''. Write p' data2
                   = Inr (p'', int (min (length data2) (length (Out p) - nat (N p))), None)
                 \<and> N p'' = N p
                 \<and> Out p'' = take (nat (N p)) (Out p)
                       @ take (length (Out p) - nat (N p)) data2
                       @ drop (nat (N p) + length data2) (Out p'))))
   \<and> (N p < 0 \<or> int (length (Out p)) < N p \<longrightarrow> Write p data = Inl SliceBoundsOutOfRange)"
proof (intro conjI impI)
  assume "0 \<le> N p \<and> N p \<le> int (length (Out p))"
  then have "0 \<le> N p" and "N p \<le> int (length (Out p))" by simp_all
  then show "\<exists>p'. Write p data = Inr (p', int (min (length data) (length (Out p) - nat (N p))), None)
           \<and> N p' = N p
           \<and> length (Out p') = length (Out p)
           \<and> Out p' = take (nat (N p)) (Out p)
                       @ take (length (Out p) - nat (N p)) data
                       @ drop (nat (N p) + length data) (Out p)
           \<and> (\<forall>data2. \<exists>p''. Write p' data2
                   = Inr (p'', int (min (length data2) (length (Out p) - nat (N p))), None)
                 \<and> N p'' = N p
                 \<and> Out p'' = take (nat (N p)) (Out p)
                       @ take (length (Out p) - nat (N p)) data2
                       @ drop (nat (N p) + length data2) (Out p'))"
    by (rule Write_in_range)
next
  assume "N p < 0 \<or> int (length (Out p)) < N p"
  then show "Write p data = Inl SliceBoundsOutOfRange"
    by (simp add: Write_def)
qed

text \<open>
  A writer of four bytes with \<open>N = 1\<close>: two writes land at index 1. With \<open>N = -1\<close> or
  \<open>N = 5\<close> the call panics.
\<close>

theorem Write_at_fixed_offset_witness:
  "(0::int) \<le> N \<lparr>Out = [9, 9, 9, 9], N = 1\<rparr>
   \<and> Write \<lparr>Out = [9, 9, 9, 9], N = 1\<rparr> [1, 2] = Inr (\<lparr>Out = [9, 1, 2, 9], N = 1\<rparr>, 2, None)
   \<and> Write \<lparr>Out = [9, 1, 2, 9], N = 1\<rparr> [5] = Inr (\<lparr>Out = [9, 5, 2, 9], N = 1\<rparr>, 1, None)
   \<and> N \<lparr>Out = [9, 9, 9, 9], N = -1\<rparr> < 0
   \<and> Write \<lparr>Out = [9, 9, 9, 9], N = -1\<rparr> [1, 2] = Inl SliceBoundsOutOfRange
   \<and> int (length (Out \<lparr>Out = [9, 9, 9, 9], N = 5\<rparr>)) < N \<lparr>Out = [9, 9, 9, 9], N = 5\<rparr>
   \<and> Write \<lparr>Out = [9, 9, 9, 9], N = 5\<rparr> [1, 2] = Inl SliceBoundsOutOfRange"
proof -
  have 1: "Write \<lparr>Out = [9, 9, 9, 9], N = 1\<rparr> [1, 2] = Inr (\<lparr>Out = [9, 1, 2, 9], N = 1\<rparr>, 2, None)"
    using Write_at_fixed_offset [of "\<lparr>Out = [9, 9, 9, 9], N = 1\<rparr>" "[1, 2]"]
    by (simp add: Write_def go_copy_def)
  have 2: "Write \<lparr>Out = [9, 1, 2, 9], N = 1\<rparr> [5] = Inr (\<lparr>Out = [9, 5, 2, 9], N = 1\<rparr>, 1, None)"
    using Write_at_fixed_offset [of "\<lparr>Out = [9, 1, 2, 9], N = 1\<rparr>" "[5]"]
    by (simp add: Write_def go_copy_def)
  have 3: "Write \<lparr>Out = [9, 9, 9, 9], N = -1\<rparr> [1, 2] = Inl SliceBoundsOutOfRange"
    using Write_at_fixed_offset [of "\<lparr>Out = [9, 9, 9, 9], N = -1\<rparr>" "[1, 2]"] by simp
  have 4: "Write \<lparr>Out = [9, 9, 9, 9], N = 5\<rparr> [1, 2] = Inl SliceBoundsOutOfRange"
    using Write_at_fixed_offset [of "\<lparr>Out = [9, 9, 9, 9], N = 5\<rparr>" "[1, 2]"] by simp
  show ?thesis using 1 2 3 4 by simp
qed

text \<open>
  C8 as stated fails where \<open>Out\<close> is shorter than \<open>N\<close>: the slice expression panics, so
  the call returns neither zero nor a nil error.
\<close>

theorem Write_panics_counterexample:
  "length (Out \<lparr>Out = [], N = 1\<rparr>) \<le> nat (N \<lparr>Out = [], N = 1\<rparr>)
   \<and> Write \<lparr>Out = [], N = 1\<rparr> [7] = Inl SliceBoundsOutOfRange"
  by (simp add: Write_def)

text \<open>
  C9 (as amended). On a server whose \<^verbatim>\<open>feeds\<close> map is not nil, \<^verbatim>\<open>Feed\<close> returns a non-nil
  feed pointer and the nil error; any later call with a message of the same dynamic type
  returns the same pointer and leaves the server and the heap unchanged. If the type had no
  feed, the call allocates a new one and stores it under the type; otherwise it changes
  nothing. On a server whose \<^verbatim>\<open>feeds\<close> map is nil, the call panics on the map assignment,
  whatever the message and the heap.
\<close>

theorem Feed_idempotent_per_type:
  "(feeds s = Some m \<longrightarrow>
      (\<exists>p s' h'. Feed (s, h) msg = Inr ((p, None), s', h') \<and> p \<noteq> Nil
         \<and> (\<forall>msg2. TypeOf msg2 = TypeOf msg \<longrightarrow> Feed (s', h') msg2 = Inr ((p, None), s', h'))
         \<and> (map_index (feeds s) (TypeOf msg) = Nil \<longrightarrow>
               p = Addr h \<and> feeds s' = Some (m(TypeOf msg \<mapsto> p)) \<and> h' = Suc h)
         \<and> (map_index (feeds s) (TypeOf msg) \<noteq> Nil \<longrightarrow>
               p = map_index (feeds s) (TypeOf msg) \<and> s' = s \<and> h' = h)))
   \<and> (feeds s = None \<longrightarrow> Feed (s, h) msg = Inl AssignmentToNilMap)"
proof (intro conjI impI)
  assume "feeds s = Some m"
  then show "\<exists>p s' h'. Feed (s, h) msg = Inr ((p, None), s', h') \<and> p \<noteq> Nil
         \<and> (\<forall>msg2. TypeOf msg2 = TypeOf msg \<longrightarrow> Feed (s', h') msg2 = Inr ((p, None), s', h'))
         \<and> (map_index (feeds s) (TypeOf msg) = Nil \<longrightarrow>
               p = Addr h \<and> feeds s' = Some (m(TypeOf msg \<mapsto> p)) \<and> h' = Suc h)
         \<and> (map_index (feeds s) (TypeOf msg) \<noteq> Nil \<longrightarrow>
               p = map_index (feeds s) (TypeOf msg) \<and> s' = s \<and> h' = h)"
    by (auto simp: Feed_def map_index_def map_assign_def Let_def split: option.splits)
next
  assume "feeds s = None"
  then show "Feed (s, h) msg = Inl AssignmentToNilMap"
    by (simp add: Feed_def map_index_def map_assign_def)
qed

text \<open>
  An empty registry: the first call allocates cell 3, the second returns it again. A nil
  registry with heap 5 panics on the nil message.
\<close>

theorem Feed_idempotent_per_type_witness:
  "feeds \<lparr>feeds = Some Map.empty\<rparr> = Some (Map.empty :: string option \<rightharpoonup> ptr)
   \<and> Feed (\<lparr>feeds = Some Map.empty\<rparr>, 3) (Some (''Ping'', 0::nat))
       = Inr ((Addr 3, None), \<lparr>feeds = Some [Some ''Ping'' \<mapsto> Addr 3]\<rparr>, 4)
   \<and> Feed (\<lparr>feeds = Some [Some ''Ping'' \<mapsto> Addr 3]\<rparr>, 4) (Some (''Ping'', 7::nat))
       = Inr ((Addr 3, None), \<lparr>feeds = Some [Some ''Ping'' \<mapsto> Addr 3]\<rparr>, 4)
   \<and> feeds \<lparr>feeds = None :: (string option \<rightharpoonup> ptr) option\<rparr> = None
   \<and> Feed (\<lparr>feeds = None :: (string option \<rightharpoonup> ptr) option\<rparr>, 5) (None :: (string, nat) iface)
       = Inl AssignmentToNilMap"
proof -
  have 1: "Feed (\<lparr>feeds = Some Map.empty\<rparr>, 3) (Some (''Ping'', 0::nat))
       = Inr ((Addr 3, None), \<lparr>feeds = Some [Some ''Ping'' \<mapsto> Addr 3]\<rparr>, 4)"
    using Feed_idempotent_per_type
      [of "\<lparr>feeds = Some Map.empty\<rparr>" Map.empty 3 "Some (''Ping'', 0::nat)"]
    by (simp add: Feed_def map_index_def map_assign_def TypeOf_def)
  have 2: "Feed (\<lparr>feeds = Some [Some ''Ping'' \<mapsto> Addr 3]\<rparr>, 4) (Some (''Ping'', 7::nat))
       = Inr ((Addr 3, None), \<lparr>feeds = Some [Some ''Ping'' \<mapsto> Addr 3]\<rparr>, 4)"
    by (simp add: Feed_def map_index_def map_assign_def TypeOf_def)
  have 3: "Feed (\<lparr>feeds = None :: (string option \<rightharpoonup> ptr) option\<rparr>, 5) (None :: (string, nat) iface)
       = Inl AssignmentToNilMap"
    using Feed_idempotent_per_type
      [of "\<lparr>feeds = None :: (string option \<rightharpoonup> ptr) option\<rparr>" Map.empty 5 "None :: (string, nat) iface"]
    by simp
  show ?thesis using 1 2 3 by simp
qed

text \<open>
  C9 as stated fails on a server whose \<^verbatim>\<open>feeds\<close> map is nil (the zero value of
  \<^verbatim>\<open>Server\<close>): the assignment panics and no feed is returned.
\<close>

theorem Feed_nil_map_counterexample:
  "Feed (\<lparr>feeds = None\<rparr>, 0) (Some (''Ping'', 0::nat)) = Inl AssignmentToNilMap"
  by (simp add: Feed_def map_index_def map_assign_def TypeOf_def)

section \<open>Properties of the serialization engine\<close>

subsection \<open>Bit packing and the bitlist sentinel\<close>

lemma length_bits_of_byte [simp]: "length (bits_of_byte w) = 8"
  by (simp add: bits_of_byte_def)

lemma nth_bits_of_byte: "i < 8 \<Longrightarrow> bits_of_byte w ! i = bit w i"
  by (simp add: bits_of_byte_def)

lemma bit_byte_of_bits:
  "bit (byte_of_bits bs) i \<longleftrightarrow> i < 8 \<and> i < length bs \<and> bs ! i"
  by (auto simp: byte_of_bits_def bit_horner_sum_bit_word_iff)

lemma bits_of_byte_of_bits:
  "bits_of_byte (byte_of_bits bs) = take 8 bs @ replicate (8 - length bs) False"
  by (rule nth_equalityI) (auto simp: nth_bits_of_byte bit_byte_of_bits nth_append)

lemma length_unpack_bits [simp]: "length (unpack_bits bs) = 8 * length bs"
  by (induction bs) (simp_all add: unpack_bits_def)

lemma unpack_bits_Cons: "unpack_bits (b # bs) = bits_of_byte b @ unpack_bits bs"
  by (simp add: unpack_bits_def)

lemma nth_unpack_bits:
  "i < 8 * length bs \<Longrightarrow> unpack_bits bs ! i = bit (bs ! (i div 8)) (i mod 8)"
proof (induction bs arbitrary: i)
  case Nil
  then show ?case by simp
next
  case (Cons b bs)
  show ?case
  proof (cases "i < 8")
    case True
    then show ?thesis by (simp add: unpack_bits_Cons nth_append nth_bits_of_byte)
  next
    case False
    then have i: "i = (i - 8) + 8" by simp
    have "i - 8 < 8 * length bs" using Cons.prems False by simp
    from Cons.IH [OF this] have "unpack_bits bs ! (i - 8) = bit (bs ! ((i - 8) div 8)) ((i - 8) mod 8)" .
    moreover have "(i - 8) div 8 = i div 8 - 1" "(i - 8) mod 8 = i mod 8" "0 < i div 8"
      using False by (simp_all add: le_div_geq le_mod_geq)
    ultimately show ?thesis
      using False by (simp add: unpack_bits_Cons nth_append)
  qed
qed

lemma length_pack_bits: "length (pack_bits bs) = (length bs + 7) div 8"
proof (induction bs rule: pack_bits.induct)
  case 1
  then show ?case by simp
next
  case (2 b bs)
  then show ?case by (cases "length bs < 7") (simp_all add: le_div_geq)
qed

lemma unpack_pack_bits:
  "unpack_bits (pack_bits bs) = bs @ replicate (8 * length (pack_bits bs) - length bs) False"
proof (induction bs rule: pack_bits.induct)
  case 1
  then show ?case by (simp add: unpack_bits_def)
next
  case (2 b bs)
  show ?case
  proof (cases "length bs < 7")
    case True
    then show ?thesis
      by (simp add: unpack_bits_Cons bits_of_byte_of_bits unpack_bits_def)
  next
    case False
    then have split: "b # bs = take 8 (b # bs) @ drop 7 bs" by simp
    have len: "8 * length (pack_bits (drop 7 bs)) - length (drop 7 bs)
        = 8 * length (pack_bits (b # bs)) - length (b # bs)"
      using False by (simp add: length_pack_bits)
    have "unpack_bits (pack_bits (b # bs))
        = take 8 (b # bs) @ unpack_bits (pack_bits (drop 7 bs))"
      using False by (simp add: unpack_bits_Cons bits_of_byte_of_bits)
    also have "\<dots> = take 8 (b # bs) @ drop 7 bs
        @ replicate (8 * length (pack_bits (b # bs)) - length (b # bs)) False"
      using "2.IH" len by simp
    finally show ?thesis using split by (metis append.assoc)
  qed
qed

lemma dropWhile_Not_replicate_False:
  "dropWhile Not (replicate k False @ xs) = dropWhile Not xs"
  by (induction k) simp_all

lemma strip_sentinel_padded:
  "strip_sentinel (bits @ True # replicate k False) = Some bits"
  by (simp add: strip_sentinel_def dropWhile_Not_replicate_False)

lemma bits_of_byte_zero: "bits_of_byte 0 = replicate 8 False"
  by (rule nth_equalityI) (simp_all add: nth_bits_of_byte)

lemma unpack_zero: "\<forall>b \<in> set bs. b = 0 \<Longrightarrow> unpack_bits bs = replicate (8 * length bs) False"
  by (induction bs) (simp_all add: unpack_bits_def bits_of_byte_zero replicate_add)

lemma strip_sentinel_zero: "strip_sentinel (replicate k False) = None"
  using dropWhile_Not_replicate_False [of k "[]"] by (simp add: strip_sentinel_def)

lemma decode_packed_bitlist:
  "decode (TBitlist L) (pack_bits (bits @ [True]))
     = (if L < length bits then Inl CapacityExceeded else Inr (VBits bits))"
  using unpack_pack_bits [of "bits @ [True]"]
  by (simp add: strip_sentinel_padded)

text \<open>
  C4. For a bitlist of \<open>n \<le> L\<close> bits, \<open>encode\<close> yields \<open>n div 8 + 1\<close> bytes (one more
  than the data bits need exactly when they fill their bytes) in which data bit \<open>i\<close> is bit
  \<open>i mod 8\<close> of byte \<open>i div 8\<close>, the bit after the last data bit is the sentinel 1 and all
  higher bits are 0; \<open>decode\<close> of these bytes gives back exactly the \<open>n\<close> bits, for every
  \<open>n\<close> from 0 to \<open>L\<close>. \<open>decode\<close> fails with \<open>InvalidBitlistSentinel\<close> on input whose bytes
  are all zero, and with \<open>CapacityExceeded\<close> on the encoding of a bitlist longer than \<open>L\<close>
  and on any input whose sentinel stands above more than \<open>L\<close> bits.
\<close>

theorem bitlist_sentinel:
  "(length bits \<le> L \<longrightarrow>
      (\<exists>bytes. encode (TBitlist L) (VBits bits) = Inr bytes
         \<and> length bytes = length bits div 8 + 1
         \<and> (\<forall>i < length bits. bit (bytes ! (i div 8)) (i mod 8) = bits ! i)
         \<and> bit (bytes ! (length bits div 8)) (length bits mod 8)
         \<and> (\<forall>i. length bits < i \<and> i < 8 * length bytes \<longrightarrow> \<not> bit (bytes ! (i div 8)) (i mod 8))
         \<and> decode (TBitlist L) bytes = Inr (VBits bits)))
   \<and> ((\<forall>b \<in> set bs. b = 0) \<longrightarrow> decode (TBitlist L) bs = Inl InvalidBitlistSentinel)
   \<and> (\<forall>L' bytes. encode (TBitlist L') (VBits bits) = Inr bytes \<and> L < length bits \<longrightarrow>
          decode (TBitlist L) bytes = Inl CapacityExceeded)
   \<and> (\<forall>data. strip_sentinel (unpack_bits bs) = Some data \<and> L < length data \<longrightarrow>
          decode (TBitlist L) bs = Inl CapacityExceeded)"
proof (intro conjI impI allI)
  assume le: "length bits \<le> L"
  define bytes where "bytes = pack_bits (bits @ [True])"
  define k where "k = 8 * length bytes - Suc (length bits)"
  have enc: "encode (TBitlist L) (VBits bits) = Inr bytes"
    using le by (simp add: bytes_def)
  have len: "length bytes = length bits div 8 + 1"
    by (simp add: bytes_def length_pack_bits)
  have unp: "unpack_bits bytes = bits @ True # replicate k False"
    using unpack_pack_bits [of "bits @ [True]"] by (simp add: bytes_def k_def)
  have nth: "bit (bytes ! (i div 8)) (i mod 8) = (bits @ True # replicate k False) ! i"
    if "i < 8 * length bytes" for i
    using nth_unpack_bits [OF that] unp by simp
  have klen: "8 * length bytes = length bits + Suc k"
    using arg_cong [OF unp, of length] by simp
  have data: "\<forall>i < length bits. bit (bytes ! (i div 8)) (i mod 8) = bits ! i"
    using nth klen by (simp add: nth_append)
  have sentinel: "bit (bytes ! (length bits div 8)) (length bits mod 8)"
    using nth [of "length bits"] klen by simp
  have above: "\<forall>i. length bits < i \<and> i < 8 * length bytes \<longrightarrow> \<not> bit (bytes ! (i div 8)) (i mod 8)"
  proof (intro allI impI)
    fix i assume i: "length bits < i \<and> i < 8 * length bytes"
    then have "(bits @ True # replicate k False) ! i = replicate k False ! (i - Suc (length bits))"
      by (simp add: nth_append nth_Cons')
    moreover have "i - Suc (length bits) < k" using i klen by linarith
    ultimately show "\<not> bit (bytes ! (i div 8)) (i mod 8)"
      using nth i by simp
  qed
  have dec: "decode (TBitlist L) bytes = Inr (VBits bits)"
    using le decode_packed_bitlist [of L bits] by (simp add: bytes_def del: decode.simps)
  show "\<exists>bytes. encode (TBitlist L) (VBits bits) = Inr bytes
         \<and> length bytes = length bits div 8 + 1
         \<and> (\<forall>i < length bits. bit (bytes ! (i div 8)) (i mod 8) = bits ! i)
         \<and> bit (bytes ! (length bits div 8)) (length bits mod 8)
         \<and> (\<forall>i. length bits < i \<and> i < 8 * length bytes \<longrightarrow> \<not> bit (bytes ! (i div 8)) (i mod 8))
         \<and> decode (TBitlist L) bytes = Inr (VBits bits)"
    using enc len data sentinel above dec by blast
next
  assume "\<forall>b \<in> set bs. b = 0"
  then show "decode (TBitlist L) bs = Inl InvalidBitlistSentinel"
    by (simp add: unpack_zero strip_sentinel_zero)
next
  fix L' bytes
  assume "encode (TBitlist L') (VBits bits) = Inr bytes \<and> L < length bits"
  then show "decode (TBitlist L) bytes = Inl CapacityExceeded"
    using decode_packed_bitlist [of L bits] by (auto simp del: decode.simps split: if_splits)
next
  fix data
  assume "strip_sentinel (unpack_bits bs) = Some data \<and> L < length data"
  then show "decode (TBitlist L) bs = Inl CapacityExceeded"
    by simp
qed

text \<open>
  The bitlist \<open>[1,0,1,1,0]\<close> at capacity 8 is the single byte \<open>0x2D\<close> and decodes back; two
  zero bytes have no sentinel; at capacity 4 the five bits recovered are too many.
\<close>

theorem bitlist_sentinel_witness:
  "length [True, False, True, True, False] \<le> (8::nat)
   \<and> encode (TBitlist 8) (VBits [True, False, True, True, False]) = Inr [0x2D]
   \<and> decode (TBitlist 8) [0x2D] = Inr (VBits [True, False, True, True, False])
   \<and> decode (TBitlist 8) [0, 0] = Inl InvalidBitlistSentinel
   \<and> (4::nat) < length [True, False, True, True, False]
   \<and> decode (TBitlist 4) [0x2D] = Inl CapacityExceeded"
proof -
  have e: "encode (TBitlist 8) (VBits [True, False, True, True, False]) = Inr [0x2D]"
    by (simp add: byte_of_bits_def)
  from bitlist_sentinel [of "[True, False, True, True, False]" 8 "[0, 0]"]
  have 1: "decode (TBitlist 8) [0x2D] = Inr (VBits [True, False, True, True, False])"
    and 2: "decode (TBitlist 8) [0, 0] = Inl InvalidBitlistSentinel"
    using e by simp_all
  have "encode (TBitlist 8) (VBits [True, False, True, True, False]) = Inr [0x2D]
      \<and> 4 < length [True, False, True, True, False]
      \<longrightarrow> decode (TBitlist 4) [0x2D] = Inl CapacityExceeded"
    using bitlist_sentinel [of "[True, False, True, True, False]" 4 "[]"] by blast
  with e have 3: "decode (TBitlist 4) [0x2D] = Inl CapacityExceeded"
    by simp
  show ?thesis using e 1 2 3 by simp
qed

subsection \<open>Integers, sequences of results, pieces\<close>

lemma length_le_bytes [simp]: "length (le_bytes k n) = k"
  by (induction k arbitrary: n) simp_all

lemma le_nat_le_bytes: "n < 256 ^ k \<Longrightarrow> le_nat (le_bytes k n) = n"
proof (induction k arbitrary: n)
  case 0
  then show ?case by simp
next
  case (Suc k)
  have "n div 256 < 256 ^ k"
    using Suc.prems by (simp add: less_mult_imp_div_less mult.commute)
  then have "le_nat (le_bytes k (n div 256)) = n div 256" by (rule Suc.IH)
  moreover have "unat (word_of_nat (n mod 256) :: byte) = n mod 256"
    by (simp add: unat_of_nat take_bit_eq_mod)
  ultimately show ?case by simp
qed

lemma collect_map_Inr: "collect (map Inr ys) = Inr ys"
  by (induction ys) simp_all

lemma collect_InrD: "collect xs = Inr ys \<Longrightarrow> xs = map Inr ys"
proof (induction xs arbitrary: ys)
  case Nil
  then show ?case by simp
next
  case (Cons x xs)
  then show ?case by (auto split: sum.splits)
qed

lemma collect_Inr_iff: "collect xs = Inr ys \<longleftrightarrow> xs = map Inr ys"
  using collect_InrD collect_map_Inr by blast

lemma collect_map_Inr_iff:
  "collect (map f xs) = Inr ys \<longleftrightarrow> list_all2 (\<lambda>x y. f x = Inr y) xs ys"
  unfolding collect_Inr_iff
proof (induction xs arbitrary: ys)
  case Nil
  then show ?case by auto
next
  case (Cons x xs)
  then show ?case by (cases ys) auto
qed


lemma chunks_concat:
  "\<forall>p \<in> set parts. length p = k \<Longrightarrow> chunks (length parts) k (concat parts) = parts"
  by (induction parts) simp_all

lemma length_concat_uniform:
  "\<forall>p \<in> set parts. length p = k \<Longrightarrow> length (concat parts) = length parts * k"
  by (induction parts) simp_all

subsection \<open>The layout and its inverse\<close>

lemma length_fixed_part: "length (fixed_part off ps) = fixed_part_length ps"
  by (induction off ps rule: fixed_part.induct) (simp_all add: fixed_part_length_def)

lemma variable_part_Cons:
  "variable_part ((fixed, b) # ps) = (if fixed then variable_part ps else b @ variable_part ps)"
  by (simp add: variable_part_def)

lemma variable_part_Nil [simp]: "variable_part [] = []"
  by (simp add: variable_part_def)

lemma length_layout_bytes:
  "length (layout_bytes ps) = fixed_part_length ps + length (variable_part ps)"
  by (simp add: layout_bytes_def length_fixed_part)

lemma length_layout_bytes_sum:
  "length (layout_bytes ps) = sum_list (map (\<lambda>p. length (snd p) + (if fst p then 0 else 4)) ps)"
  by (induction ps) (auto simp: length_layout_bytes fixed_part_length_def variable_part_def)

lemma layout_Inr_iff:
  "layout ps = Inr bs \<longleftrightarrow> offsets_fit (fixed_part_length ps) ps \<and> bs = layout_bytes ps"
  by (auto simp: layout_def)



lemma offsets_fit_all_fixed: "\<forall>p \<in> set ps. fst p \<Longrightarrow> offsets_fit off ps"
  by (induction off ps rule: offsets_fit.induct) auto

lemma fixed_length_of_fits:
  "list_all2 fits ts ps \<Longrightarrow> fixed_length_of ts = fixed_part_length ps"
  by (induction rule: list_all2_induct)
     (auto simp: fits_def fixed_length_of_def fixed_part_length_def)

lemma read_slots_fixed_part:
  "list_all2 fits ts ps \<Longrightarrow> offsets_fit off ps \<Longrightarrow>
     read_slots ts (fixed_part off ps @ rest) = expected_slots off ps"
proof (induction arbitrary: off rule: list_all2_induct)
  case Nil
  then show ?case by simp
next
  case (Cons t ts p ps)
  obtain fixed b where p: "p = (fixed, b)" by (cases p)
  show ?case
  proof (cases fixed)
    case True
    then show ?thesis
      using Cons p by (simp add: fits_def)
  next
    case False
    have "off < 256 ^ 4" using Cons.prems p False by simp
    then have "le_nat (le_bytes 4 off) = off" by (rule le_nat_le_bytes)
    moreover have "offsets_fit (off + length b) ps"
      using Cons.prems p False by simp
    ultimately show ?thesis
      using Cons.IH [of "off + length b"] Cons.hyps p False by (simp add: fits_def)
  qed
qed

lemma offsets_expected_Nil:
  "offsets (expected_slots off ps) = [] \<Longrightarrow> variable_part ps = []"
  by (induction off ps rule: expected_slots.induct) (auto simp: variable_part_Cons split: if_splits)

lemma offsets_expected_hd:
  "offsets (expected_slots off ps) = x # xs \<Longrightarrow> x = off"
  by (induction off ps rule: expected_slots.induct) (auto split: if_splits)

lemma sorted_offsets_expected:
  "sorted (off # offsets (expected_slots off ps) @ [off + length (variable_part ps)])"
proof (induction off ps rule: expected_slots.induct)
  case (1 off)
  then show ?case by simp
next
  case (2 off fixed b ps)
  show ?case
  proof (cases fixed)
    case True
    then show ?thesis using 2 by (simp add: variable_part_Cons)
  next
    case False
    then have "sorted ((off + length b) # offsets (expected_slots (off + length b) ps)
        @ [off + length b + length (variable_part ps)])"
      using 2 by simp
    then show ?thesis
      using False by (auto simp: variable_part_Cons add.assoc)
  qed
qed

lemma ranges_expected:
  "length pre = off \<Longrightarrow>
     ranges (pre @ variable_part ps) (expected_slots off ps) = map snd ps"
proof (induction off ps arbitrary: pre rule: expected_slots.induct)
  case (1 off)
  then show ?case by simp
next
  case (2 off fixed b ps)
  show ?case
  proof (cases fixed)
    case True
    then show ?thesis using 2 by (simp add: variable_part_Cons)
  next
    case False
    let ?whole = "pre @ b @ variable_part ps"
    let ?rest = "expected_slots (off + length b) ps"
    have next_off: "(case offsets ?rest of [] \<Rightarrow> length ?whole | n # _ \<Rightarrow> n) = off + length b"
    proof (cases "offsets ?rest")
      case Nil
      then show ?thesis using offsets_expected_Nil [OF Nil] "2.prems" by simp
    next
      case (Cons x xs)
      then show ?thesis using offsets_expected_hd [OF Cons] by simp
    qed
    have "slice off (off + length b) ?whole = b"
      using "2.prems" by (simp add: slice_def)
    moreover have "ranges ((pre @ b) @ variable_part ps) ?rest = map snd ps"
      using "2.IH"(2) [of "pre @ b"] False "2.prems" by simp
    ultimately show ?thesis
      using False next_off by (simp add: variable_part_Cons)
  qed
qed

lemma split_series_layout:
  assumes fits: "list_all2 fits ts ps"
    and fit: "offsets_fit (fixed_part_length ps) ps"
  shows "split_series ts (layout_bytes ps) = Inr (map snd ps)"
proof -
  let ?f = "fixed_part_length ps"
  let ?bs = "layout_bytes ps"
  have fl: "fixed_length_of ts = ?f" by (rule fixed_length_of_fits [OF fits])
  have len: "length ?bs = ?f + length (variable_part ps)" by (rule length_layout_bytes)
  have slots: "read_slots ts ?bs = expected_slots ?f ps"
    unfolding layout_bytes_def
    by (rule read_slots_fixed_part [OF fits fit])
  have rng: "ranges ?bs (expected_slots ?f ps) = map snd ps"
    unfolding layout_bytes_def
    by (rule ranges_expected) (simp add: length_fixed_part)
  have srt: "sorted (?f # offsets (expected_slots ?f ps) @ [length ?bs])"
    using sorted_offsets_expected [of ?f ps] len by simp
  show ?thesis
  proof (cases "offsets (expected_slots ?f ps)")
    case Nil
    then have "length ?bs = ?f" using offsets_expected_Nil [OF Nil] len by simp
    then show ?thesis using Nil slots rng fl by (simp add: split_series_def)
  next
    case (Cons x xs)
    then have "x = ?f" by (rule offsets_expected_hd)
    moreover have "sorted (offsets (expected_slots ?f ps) @ [length ?bs])"
      using srt by simp
    ultimately show ?thesis
      using Cons slots rng fl len by (simp add: split_series_def)
  qed
qed

lemma collect_map_nth:
  "collect (map f xs) = Inr ys \<longleftrightarrow>
     length ys = length xs \<and> (\<forall>i < length xs. f (xs ! i) = Inr (ys ! i))"
  by (auto simp: collect_map_Inr_iff list_all2_conv_all_nth)

lemma collect_zip_nth:
  "length vs = length ts \<Longrightarrow>
     collect (map (\<lambda>(t, v). f t v) (zip ts vs)) = Inr ys \<longleftrightarrow>
       length ys = length ts \<and> (\<forall>i < length ts. f (ts ! i) (vs ! i) = Inr (ys ! i))"
  by (auto simp: collect_map_nth)


lemma sum_list_nth_eq:
  "length xs = length ys \<Longrightarrow> (\<forall>i < length xs. f (xs ! i) = g (ys ! i)) \<Longrightarrow>
     sum_list (map f xs) = sum_list (map g ys)"
proof (induction xs ys rule: list_induct2)
  case Nil
  then show ?case by simp
next
  case (Cons x xs y ys)
  from Cons.prems have "f x = g y" by auto
  moreover from Cons.prems have "\<forall>i < length xs. f (xs ! i) = g (ys ! i)" by auto
  ultimately show ?case using Cons.IH by simp
qed


subsection \<open>Encoding: its length and its errors\<close>

lemma encode_sequence_cases:
  assumes "collect (map (encode t) vs) = Inr parts"
  shows "length parts = length vs"
    and "\<forall>i < length vs. encode t (vs ! i) = Inr (parts ! i)"
  using assms by (simp_all add: collect_map_nth)


lemma encode_fixed_length:
  "conforms t v \<Longrightarrow> isFixedSize t \<Longrightarrow> encode t v = Inr bs \<Longrightarrow> length bs = fixedByteLength t"
proof (induction t v arbitrary: bs rule: conforms.induct)
  case (3 t n vs)
  then obtain parts where parts: "collect (map (encode t) vs) = Inr parts"
    and bs: "bs = concat parts"
    by (auto split: sum.splits if_splits)
  from parts have len: "length parts = length vs"
    and enc: "\<forall>i < length vs. encode t (vs ! i) = Inr (parts ! i)"
    by (simp_all add: collect_map_nth)
  have "\<forall>p \<in> set parts. length p = fixedByteLength t"
  proof
    fix p assume "p \<in> set parts"
    then obtain i where i: "i < length vs" "p = parts ! i"
      using len by (auto simp: in_set_conv_nth)
    then show "length p = fixedByteLength t"
      using "3.IH" [of "vs ! i" p] "3.prems" enc by simp
  qed
  then have "length (concat parts) = length parts * fixedByteLength t"
    by (rule length_concat_uniform)
  then show ?case
    using bs len "3.prems"(1) by simp
next
  case (5 n bs')
  then show ?case by (auto simp: length_pack_bits)
next
  case (7 ts vs)
  then have len: "length vs = length ts" and c: "\<forall>i < length ts. conforms (ts ! i) (vs ! i)"
    by (simp_all add: list_all2_conv_all_nth)
  from "7.prems" len obtain parts
    where parts: "collect (map (\<lambda>(t, v). encode t v) (zip ts vs)) = Inr parts"
      and bs: "layout (zip (map isFixedSize ts) parts) = Inr bs"
    by (auto split: sum.splits)
  from parts len have plen: "length parts = length ts"
    and enc: "\<forall>i < length ts. encode (ts ! i) (vs ! i) = Inr (parts ! i)"
    by (simp_all add: collect_zip_nth)
  have fixed: "\<forall>i < length ts. isFixedSize (ts ! i)"
    using "7.prems"(2) by (simp add: list_all_length)
  have each: "\<forall>i < length ts. length (parts ! i) = fixedByteLength (ts ! i)"
  proof (intro allI impI)
    fix i assume i: "i < length ts"
    then show "length (parts ! i) = fixedByteLength (ts ! i)"
      using "7.IH" [of "ts ! i" "vs ! i" "parts ! i"] c enc fixed len by simp
  qed
  have "length bs = sum_list (map (\<lambda>p. length (snd p) + (if fst p then 0 else 4))
      (zip (map isFixedSize ts) parts))"
    using bs by (simp add: layout_Inr_iff length_layout_bytes_sum)
  also have "\<dots> = sum_list (map fixedByteLength ts)"
    using plen each fixed by (intro sum_list_nth_eq) simp_all
  finally show ?case by simp
qed (auto split: if_splits)



subsection \<open>Decoding an encoding\<close>

lemma fixed_part_length_all_variable:
  "fixed_part_length (map (Pair False) parts) = 4 * length parts"
  by (induction parts) (simp_all add: fixed_part_length_def)

lemma fits_all_variable:
  "\<not> isFixedSize t \<Longrightarrow> list_all2 fits (replicate (length parts) t) (map (Pair False) parts)"
  by (simp add: list_all2_conv_all_nth fits_def)

lemma take4_layout_all_variable:
  assumes "parts \<noteq> []"
  shows "take 4 (layout_bytes (map (Pair False) parts)) = le_bytes 4 (4 * length parts)"
proof -
  obtain p ps where "parts = p # ps" using assms by (cases parts) auto
  then show ?thesis
    by (simp add: layout_bytes_def fixed_part_length_all_variable [of "p # ps", simplified])
qed

lemma first_offset_fits:
  assumes "parts \<noteq> []"
    and "offsets_fit (fixed_part_length (map (Pair False) parts)) (map (Pair False) parts)"
  shows "4 * length parts < 2 ^ 32"
proof -
  obtain p ps where "parts = p # ps" using assms(1) by (cases parts) auto
  then show ?thesis
    using assms(2) fixed_part_length_all_variable [of "p # ps"] by simp
qed

lemma decode_uint_le_bytes:
  assumes "n < 2 ^ (8 * w)"
  shows "decode (TUint w) (le_bytes w n) = Inr (VUint n)"
proof -
  have "n < 256 ^ w" using assms by (simp add: power_mult)
  then have "le_nat (le_bytes w n) = n" by (rule le_nat_le_bytes)
  then show ?thesis by simp
qed

lemma decode_bitvector_pack:
  "decode (TBitvector (length bits)) (pack_bits bits) = Inr (VBits bits)"
  using unpack_pack_bits [of bits] by (simp add: length_pack_bits)

lemma Inr_VSeq_iff:
  "(case c of Inl e \<Rightarrow> Inl e | Inr vs' \<Rightarrow> Inr (VSeq vs')) = Inr (VSeq vs) \<longleftrightarrow> c = Inr vs"
  by (cases c) auto

lemma Inr_VContainer_iff:
  "(case c of Inl e \<Rightarrow> Inl e | Inr vs' \<Rightarrow> Inr (VContainer vs')) = Inr (VContainer vs) \<longleftrightarrow> c = Inr vs"
  by (cases c) auto

text \<open>
  Decoding the encoding of a sequence comes down to decoding the encodings of its elements,
  unless the elements have no bytes.
\<close>

lemma decode_sequence:
  assumes conf: "\<forall>v \<in> set vs. conforms t v"
    and parts: "collect (map (encode t) vs) = Inr parts"
    and bs: "(if isFixedSize t then Inr (concat parts) else layout (map (Pair False) parts)) = Inr bs"
  shows "decode (TVector t (length vs)) bs
           = (case collect (map (decode t) parts) of Inl e \<Rightarrow> Inl e | Inr vs' \<Rightarrow> Inr (VSeq vs'))"
    and "length vs \<le> l \<Longrightarrow> \<not> (isFixedSize t \<and> fixedByteLength t = 0) \<Longrightarrow>
         decode (TList t l) bs
           = (case collect (map (decode t) parts) of Inl e \<Rightarrow> Inl e | Inr vs' \<Rightarrow> Inr (VSeq vs'))"
proof -
  note len = encode_sequence_cases [OF parts]
  let ?k = "fixedByteLength t"
  have fixed_case: "length bs = length vs * ?k \<and> chunks (length vs) ?k bs = parts"
    if fixed: "isFixedSize t"
  proof -
    have sizes: "\<forall>p \<in> set parts. length p = ?k"
    proof
      fix p assume "p \<in> set parts"
      then obtain i where "i < length vs" "p = parts ! i"
        using len(1) by (auto simp: in_set_conv_nth)
      then show "length p = ?k"
        using encode_fixed_length [of t "vs ! i" p] conf len(2) fixed by simp
    qed
    have "bs = concat parts" using bs fixed by simp
    then show ?thesis
      using length_concat_uniform [OF sizes] chunks_concat [OF sizes] len(1) by simp
  qed
  have variable_case:
    "split_series (replicate (length vs) t) bs = Inr parts
       \<and> bs = layout_bytes (map (Pair False) parts)
       \<and> offsets_fit (fixed_part_length (map (Pair False) parts)) (map (Pair False) parts)"
    if var: "\<not> isFixedSize t"
  proof -
    have b: "bs = layout_bytes (map (Pair False) parts)"
      and fit: "offsets_fit (fixed_part_length (map (Pair False) parts)) (map (Pair False) parts)"
      using bs var by (simp_all add: layout_Inr_iff)
    have "list_all2 fits (replicate (length parts) t) (map (Pair False) parts)"
      using var by (rule fits_all_variable)
    from split_series_layout [OF this fit] show ?thesis
      using b fit len(1) by (simp add: comp_def)
  qed
  show "decode (TVector t (length vs)) bs
           = (case collect (map (decode t) parts) of Inl e \<Rightarrow> Inl e | Inr vs' \<Rightarrow> Inr (VSeq vs'))"
  proof (cases "isFixedSize t")
    case True
    then show ?thesis using fixed_case [OF True] by simp
  next
    case False
    then show ?thesis using variable_case [OF False, THEN conjunct1] by simp
  qed
  show "decode (TList t l) bs
           = (case collect (map (decode t) parts) of Inl e \<Rightarrow> Inl e | Inr vs' \<Rightarrow> Inr (VSeq vs'))"
    if l: "length vs \<le> l" and nz: "\<not> (isFixedSize t \<and> fixedByteLength t = 0)"
  proof (cases "isFixedSize t")
    case True
    then have k: "0 < ?k" using nz by simp
    have lbs: "length bs = length vs * ?k" and ch: "chunks (length vs) ?k bs = parts"
      using fixed_case [OF True] by simp_all
    have "length bs mod ?k = 0" "length bs div ?k = length vs"
      using lbs k by simp_all
    then show ?thesis using True k l ch by simp
  next
    case False
    note series = variable_case [OF False]
    note sp = series [THEN conjunct1]
    show ?thesis
    proof (cases "vs = []")
      case True
      then have "parts = []" using len(1) by simp
      then have "bs = []"
        using series by (simp add: layout_bytes_def fixed_part_length_def)
      then show ?thesis
        using False \<open>parts = []\<close> by simp
    next
      case nonempty: False
      then have ne: "parts \<noteq> []" using len(1) by auto
      have small: "4 * length parts < 2 ^ 32"
        using first_offset_fits [OF ne] series by simp
      then have "4 * length parts < 256 ^ 4" by simp
      then have "le_nat (le_bytes 4 (4 * length parts)) = 4 * length parts"
        by (rule le_nat_le_bytes)
      then have first: "le_nat (take 4 bs) = 4 * length vs"
        using take4_layout_all_variable [OF ne] series len(1) by simp
      have "length bs = 4 * length vs + length (variable_part (map (Pair False) parts))"
        using series len(1) by (simp add: length_layout_bytes fixed_part_length_all_variable)
      moreover have "0 < length vs" using nonempty by simp
      ultimately have "\<not> length bs < 4" by linarith
      then have "bs \<noteq> []" "\<not> length bs < 4" by auto
      then show ?thesis
        using False first l sp by simp
    qed
  qed
qed

lemma decode_elements_iff:
  assumes len: "length parts = length vs"
    and each: "\<forall>i < length vs. (decode t (parts ! i) = Inr (vs ! i)) = P (vs ! i)"
  shows "collect (map (decode t) parts) = Inr vs \<longleftrightarrow> (\<forall>v \<in> set vs. P v)"
  using len each by (auto simp: collect_map_nth all_set_conv_all_nth)

lemma decode_encode_iff:
  "conforms t v \<Longrightarrow> encode t v = Inr bs \<Longrightarrow>
     (decode t bs = Inr v \<longleftrightarrow> zero_byte_lists_empty t v)"
proof (induction t v arbitrary: bs rule: conforms.induct)
  case (1 w n)
  then show ?case using decode_uint_le_bytes [of n w] by (auto simp del: decode.simps)
next
  case (2 b)
  then show ?case by (cases b) auto
next
  case (3 t n vs)
  from "3.prems" have n: "length vs = n" and conf: "\<forall>v \<in> set vs. conforms t v"
    by simp_all
  from "3.prems" n obtain parts where parts: "collect (map (encode t) vs) = Inr parts"
    and bs: "(if isFixedSize t then Inr (concat parts) else layout (map (Pair False) parts)) = Inr bs"
    by (auto split: sum.splits)
  note len = encode_sequence_cases [OF parts]
  have each: "\<forall>i < length vs. (decode t (parts ! i) = Inr (vs ! i)) = zero_byte_lists_empty t (vs ! i)"
    using "3.IH" conf len(2) n by simp
  have "decode (TVector t n) bs = Inr (VSeq vs) \<longleftrightarrow> collect (map (decode t) parts) = Inr vs"
    using decode_sequence(1) [OF conf parts bs] n by (simp only: Inr_VSeq_iff)
  also have "\<dots> \<longleftrightarrow> (\<forall>v \<in> set vs. zero_byte_lists_empty t v)"
    using len(1) each by (rule decode_elements_iff)
  finally show ?case by (simp del: decode.simps)
next
  case (4 t l vs)
  from "4.prems" have l: "length vs \<le> l" and conf: "\<forall>v \<in> set vs. conforms t v"
    by simp_all
  from "4.prems" l obtain parts where parts: "collect (map (encode t) vs) = Inr parts"
    and bs: "(if isFixedSize t then Inr (concat parts) else layout (map (Pair False) parts)) = Inr bs"
    by (auto split: sum.splits)
  note len = encode_sequence_cases [OF parts]
  have each: "\<forall>i < length vs. (decode t (parts ! i) = Inr (vs ! i)) = zero_byte_lists_empty t (vs ! i)"
    using "4.IH" conf len(2) l by simp
  show ?case
  proof (cases "isFixedSize t \<and> fixedByteLength t = 0")
    case True
    have "\<forall>p \<in> set parts. length p = 0"
    proof
      fix p assume "p \<in> set parts"
      then obtain i where "i < length vs" "p = parts ! i"
        using len(1) by (auto simp: in_set_conv_nth)
      then show "length p = 0"
        using encode_fixed_length [of t "vs ! i" p] conf len(2) True by simp
    qed
    then have c0: "concat parts = []" by simp
    have "bs = concat parts" using bs True by simp
    then have "bs = []" by (simp only: c0)
    then have "decode (TList t l) bs = Inr (VSeq [])" using True by simp
    then show ?thesis using True by auto
  next
    case False
    have "decode (TList t l) bs = Inr (VSeq vs) \<longleftrightarrow> collect (map (decode t) parts) = Inr vs"
      using decode_sequence(2) [OF conf parts bs l False] by (simp only: Inr_VSeq_iff)
    also have "\<dots> \<longleftrightarrow> (\<forall>v \<in> set vs. zero_byte_lists_empty t v)"
      using len(1) each by (rule decode_elements_iff)
    finally show ?thesis using False by (auto simp del: decode.simps)
  qed
next
  case (5 n bits)
  then show ?case using decode_bitvector_pack [of bits] by (auto simp del: decode.simps)
next
  case (6 l bits)
  then show ?case using decode_packed_bitlist [of l bits] by (auto simp del: decode.simps)
next
  case (7 ts vs)
  from "7.prems" have len: "length vs = length ts"
    and conf: "\<forall>i < length ts. conforms (ts ! i) (vs ! i)"
    by (simp_all add: list_all2_conv_all_nth)
  let ?ps = "\<lambda>parts. zip (map isFixedSize ts) parts"
  from "7.prems" len obtain parts
    where parts: "collect (map (\<lambda>(t, v). encode t v) (zip ts vs)) = Inr parts"
      and lay: "layout (?ps parts) = Inr bs"
    by (auto split: sum.splits)
  from lay have bs: "bs = layout_bytes (?ps parts)"
    and fit: "offsets_fit (fixed_part_length (?ps parts)) (?ps parts)"
    by (simp_all add: layout_Inr_iff)
  from parts len have plen: "length parts = length ts"
    and enc: "\<forall>i < length ts. encode (ts ! i) (vs ! i) = Inr (parts ! i)"
    by (simp_all add: collect_zip_nth)
  have fits: "list_all2 fits ts (?ps parts)"
    unfolding list_all2_conv_all_nth fits_def
  proof (intro conjI allI impI)
    show "length ts = length (?ps parts)" using plen by simp
  next
    fix i assume i: "i < length ts"
    then show "fst (?ps parts ! i) = isFixedSize (ts ! i)" using plen by simp
  next
    fix i assume i: "i < length ts" and "fst (?ps parts ! i)"
    then have "isFixedSize (ts ! i)" using plen by simp
    then show "length (snd (?ps parts ! i)) = fixedByteLength (ts ! i)"
      using encode_fixed_length [of "ts ! i" "vs ! i" "parts ! i"] conf enc i plen by simp
  qed
  have split: "split_series ts bs = Inr parts"
    using split_series_layout [OF fits fit] bs plen by (simp add: map_snd_zip)
  have each: "\<forall>i < length ts.
      (decode (ts ! i) (parts ! i) = Inr (vs ! i)) = zero_byte_lists_empty (ts ! i) (vs ! i)"
  proof (intro allI impI)
    fix i assume i: "i < length ts"
    then show "(decode (ts ! i) (parts ! i) = Inr (vs ! i)) = zero_byte_lists_empty (ts ! i) (vs ! i)"
      using "7.IH" [of "ts ! i" "vs ! i" "parts ! i"] conf enc len by simp
  qed
  have "decode (TContainer ts) bs = Inr (VContainer vs)
      \<longleftrightarrow> collect (map (\<lambda>(t, r). decode t r) (zip ts parts)) = Inr vs"
    using split by (simp add: Inr_VContainer_iff)
  also have "\<dots> \<longleftrightarrow> (\<forall>i < length ts. decode (ts ! i) (parts ! i) = Inr (vs ! i))"
    using collect_zip_nth [of parts ts decode vs] plen len by simp
  also have "\<dots> \<longleftrightarrow> list_all2 zero_byte_lists_empty ts vs"
    using each len by (simp add: list_all2_conv_all_nth)
  finally show ?case by (simp del: decode.simps)
qed simp_all

subsection \<open>Evaluation on numerals\<close>

lemma le_bytes_numeral [simp]:
  "le_bytes (numeral k) n = word_of_nat (n mod 256) # le_bytes (pred_numeral k) (n div 256)"
proof -
  have "numeral k = Suc (pred_numeral k)" by (rule numeral_eq_Suc)
  then show ?thesis by (simp only: le_bytes.simps)
qed

lemma chunks_numeral [simp]:
  "chunks (numeral n) k bs = take k bs # chunks (pred_numeral n) k (drop k bs)"
  by (simp add: numeral_eq_Suc)

subsection \<open>The round trip\<close>




text \<open>
  The encoder's error occurs: a first list of \<open>2^32 - 8\<close> bytes puts the second list at
  position \<open>2^32\<close>, which no 4-byte offset equals.
\<close>

lemma collect_replicate_Inr: "collect (replicate k (Inr x)) = Inr (replicate k x)"
  by (induction k) simp_all

lemma offset_overflow:
  assumes k: "8 + k = 2 ^ 32"
  shows "encode (TContainer [TList (TUint 1) (2 ^ 32), TList (TUint 1) 1])
                (VContainer [VSeq (replicate k (VUint 0)), VSeq []])
           = Inl OffsetOverflow"
proof -
  have le: "\<not> (2 ^ 32 < k)" using k by linarith
  have "\<not> 8 + k < 2 ^ 32" using k by linarith
  then show ?thesis
    using le
    by (simp add: collect_replicate_Inr layout_def fixed_part_length_def)
qed

theorem offset_overflow_example:
  "conforms (TContainer [TList (TUint 1) (2 ^ 32), TList (TUint 1) 1])
            (VContainer [VSeq (replicate 4294967288 (VUint 0)), VSeq []])
   \<and> encode (TContainer [TList (TUint 1) (2 ^ 32), TList (TUint 1) 1])
             (VContainer [VSeq (replicate 4294967288 (VUint 0)), VSeq []])
       = Inl OffsetOverflow"
proof -
  have k: "8 + (4294967288 :: nat) = 2 ^ 32" by simp
  have "conforms (TContainer [TList (TUint 1) (2 ^ 32), TList (TUint 1) 1])
            (VContainer [VSeq (replicate 4294967288 (VUint 0)), VSeq []])"
    by simp
  then show ?thesis using offset_overflow [OF k] by blast
qed

text \<open>
  A vector of \<open>2^32\<close> bytes has no offsets: its encoding has \<open>2^32\<close> bytes and decodes back.
\<close>

theorem long_vector_example:
  "conforms (TVector (TUint 1) (2 ^ 32)) (VSeq (replicate (2 ^ 32) (VUint 7)))
   \<and> encode (TVector (TUint 1) (2 ^ 32)) (VSeq (replicate (2 ^ 32) (VUint 7)))
       = Inr (replicate (2 ^ 32) 7)
   \<and> decode (TVector (TUint 1) (2 ^ 32)) (replicate (2 ^ 32) 7)
       = Inr (VSeq (replicate (2 ^ 32) (VUint 7)))"
proof -
  let ?D = "TVector (TUint 1) (2 ^ 32)"
  let ?v = "VSeq (replicate (2 ^ 32) (VUint 7))"
  have c: "conforms ?D ?v" by simp
  have z: "zero_byte_lists_empty ?D ?v" by simp
  have "concat (replicate k [x]) = replicate k x" for k and x :: byte
    by (induction k) simp_all
  then have e: "encode ?D ?v = Inr (replicate (2 ^ 32) 7)"
    by (simp add: collect_replicate_Inr)
  from decode_encode_iff [OF c e] z have "decode ?D (replicate (2 ^ 32) 7) = Inr ?v"
    by (simp del: decode.simps zero_byte_lists_empty.simps)
  with c e show ?thesis by blast
qed

end
